theory Spec2Isabelle
  imports Main "HOL-Library.Finite_Map"
begin

section \<open>JavaScript values and objects\<close>

text \<open>
  The search client of \<^verbatim>\<open>src/sidebar/search-client.js\<close> handles plain JavaScript values:
  numbers (counts and page sizes, integers here), strings (sort keys, cursors), booleans,
  \<^verbatim>\<open>null\<close>, \<^verbatim>\<open>undefined\<close> and \<^verbatim>\<open>Error\<close> objects (identified by their message).
  An object (a query, an annotation) is a finite map from property names to values.
\<close>

datatype jsval = JUndefined | JNull | JBool bool | JNum int | JStr string | JError string

text \<open>JavaScript's truthiness, as the tests \<^verbatim>\<open>if (searchAfter)\<close> and
  \<^verbatim>\<open>nextBatchAvailable && nextSearchAfter\<close> use it.\<close>

fun truthy :: "jsval \<Rightarrow> bool" where
  "truthy JUndefined = False"
| "truthy JNull = False"
| "truthy (JBool b) = b"
| "truthy (JNum n) = (n \<noteq> 0)"
| "truthy (JStr s) = (s \<noteq> [])"
| "truthy (JError m) = True"

type_synonym obj = "(string, jsval) fmap"

text \<open>Reading a property: a missing property reads as \<^verbatim>\<open>undefined\<close>.\<close>

definition getprop :: "obj \<Rightarrow> string \<Rightarrow> jsval" where
  "getprop ob k = (case fmlookup ob k of None \<Rightarrow> JUndefined | Some v \<Rightarrow> v)"

section \<open>Search results, events and listeners\<close>

text \<open>A \<^verbatim>\<open>SearchResult\<close>: \<^verbatim>\<open>total\<close>, \<^verbatim>\<open>rows\<close> and the optional \<^verbatim>\<open>replies\<close>.\<close>

record searchResult =
  total :: int
  rows :: "obj list"
  replies :: "obj list option"

text \<open>The promise returned by \<^verbatim>\<open>searchFn\<close> either resolves with a page or rejects.\<close>

datatype response = Resolved searchResult | Rejected jsval

text \<open>The four events the client emits, with their payloads.\<close>

datatype event = ResultCount int | Results "obj list" | Error jsval | End

text \<open>
  The client extends \<^verbatim>\<open>TinyEmitter\<close>, a library outside this repository: \<^verbatim>\<open>emit\<close> calls
  the handlers subscribed to the event synchronously, and an exception thrown by a handler
  propagates out of \<^verbatim>\<open>emit\<close>. The subscribed handlers are a parameter of the model. For
  each event, \<open>throws\<close> is \<open>None\<close> when every handler returns and \<open>Some x\<close> when a handler
  throws \<open>x\<close>, and \<open>cancels\<close> tells whether a handler calls \<^verbatim>\<open>cancel()\<close> on the client while
  it handles the event (before it returns or throws). A handler of \<^verbatim>\<open>end\<close> does not call
  \<^verbatim>\<open>cancel()\<close>, which emits \<^verbatim>\<open>end\<close> and would call the handler again without end; and no
  handler calls \<^verbatim>\<open>get\<close>.
\<close>

record listeners =
  throws :: "event \<Rightarrow> jsval option"
  cancels :: "event \<Rightarrow> bool"

text \<open>Handlers that return and leave the client alone.\<close>

definition quiet :: listeners where
  "quiet = \<lparr>throws = (\<lambda>e. None), cancels = (\<lambda>e. False)\<rparr>"

section \<open>The client\<close>

text \<open>
  The fields of a \<^verbatim>\<open>SearchClient\<close>: the options given to the constructor and the state
  \<^verbatim>\<open>_canceled\<close>, \<^verbatim>\<open>_results\<close>, \<^verbatim>\<open>_resultCount\<close> (\<open>None\<close> is \<^verbatim>\<open>null\<close>). The field
  \<^verbatim>\<open>_searchFn\<close> is the environment: a call to it is logged in \<open>sent\<close> and leaves a
  suspended activation of \<^verbatim>\<open>_getBatch\<close> in \<open>inflight\<close> (its \<^verbatim>\<open>query\<close> argument), which
  resumes when the promise settles (\<^verbatim>\<open>searchFn\<close> returns a promise, as its type says; it does
  not throw). \<open>emitted\<close> logs the calls to \<^verbatim>\<open>emit\<close>, and \<open>escaped\<close> the exceptions that no
  \<^verbatim>\<open>catch\<close> of the client handled.
\<close>

record client =
  chunkSize :: int
  separateReplies :: bool
  incremental :: bool
  maxResults :: "int option"
  sortBy :: string
  sortOrder :: string
  canceled :: bool
  results :: "obj list"
  resultCount :: "int option"

record world = client +
  emitted :: "event list"
  sent :: "obj list"
  inflight :: "obj list"
  escaped :: "jsval list"

text \<open>The constructor's options, each optional, and the constructor with its defaults.\<close>

record options =
  opt_chunkSize :: "int option"
  opt_separateReplies :: "bool option"
  opt_incremental :: "bool option"
  opt_maxResults :: "int option"
  opt_sortBy :: "string option"
  opt_sortOrder :: "string option"

definition no_options :: options where
  "no_options = \<lparr>opt_chunkSize = None, opt_separateReplies = None, opt_incremental = None,
     opt_maxResults = None, opt_sortBy = None, opt_sortOrder = None\<rparr>"

definition constructor :: "options \<Rightarrow> world" where
  "constructor opts =
     \<lparr>chunkSize = (case opt_chunkSize opts of None \<Rightarrow> 200 | Some n \<Rightarrow> n),
      separateReplies = (case opt_separateReplies opts of None \<Rightarrow> True | Some b \<Rightarrow> b),
      incremental = (case opt_incremental opts of None \<Rightarrow> True | Some b \<Rightarrow> b),
      maxResults = opt_maxResults opts,
      sortBy = (case opt_sortBy opts of None \<Rightarrow> ''created'' | Some s \<Rightarrow> s),
      sortOrder = (case opt_sortOrder opts of None \<Rightarrow> ''asc'' | Some s \<Rightarrow> s),
      canceled = False,
      results = [],
      resultCount = None,
      emitted = [], sent = [], inflight = [], escaped = []\<rparr>"

subsection \<open>Emitting and sequencing\<close>

text \<open>A statement completes normally or throws.\<close>

datatype completion = Normal | Throw jsval

text \<open>How the call of the handlers of an event completes.\<close>

definition outcome :: "listeners \<Rightarrow> event \<Rightarrow> completion" where
  "outcome L e = (case throws L e of None \<Rightarrow> Normal | Some x \<Rightarrow> Throw x)"

text \<open>\<^verbatim>\<open>this.emit('end')\<close>: the handlers of \<^verbatim>\<open>end\<close> run.\<close>

definition emit_end :: "listeners \<Rightarrow> world \<Rightarrow> completion \<times> world" where
  "emit_end L w = (outcome L End, w\<lparr>emitted := emitted w @ [End]\<rparr>)"

text \<open>\<^verbatim>\<open>cancel()\<close> (lines 178-181): set the flag, then emit \<^verbatim>\<open>end\<close>.\<close>

definition cancel :: "listeners \<Rightarrow> world \<Rightarrow> completion \<times> world" where
  "cancel L w = emit_end L (w\<lparr>canceled := True\<rparr>)"

text \<open>
  \<^verbatim>\<open>this.emit(e)\<close>: the event is emitted and its handlers run. A handler that calls
  \<^verbatim>\<open>cancel()\<close> runs it then and there, inside the emission; an exception of \<^verbatim>\<open>cancel\<close> (thrown
  by a handler of its \<^verbatim>\<open>end\<close>) passes through the calling handler.
\<close>

definition emit :: "listeners \<Rightarrow> event \<Rightarrow> world \<Rightarrow> completion \<times> world" where
  "emit L e w =
     (if e = End then emit_end L w
      else if cancels L e then
        (case cancel L (w\<lparr>emitted := emitted w @ [e]\<rparr>) of
           (Normal, w') \<Rightarrow> (outcome L e, w')
         | (Throw y, w') \<Rightarrow> (Throw y, w'))
      else (outcome L e, w\<lparr>emitted := emitted w @ [e]\<rparr>))"

text \<open>Sequential composition: what follows a statement that throws is skipped.\<close>

definition and_then ::
  "completion \<times> world \<Rightarrow> (world \<Rightarrow> completion \<times> world) \<Rightarrow> completion \<times> world" where
  "and_then r k = (case r of (Normal, w) \<Rightarrow> k w | (Throw x, w) \<Rightarrow> (Throw x, w))"

subsection \<open>\<^verbatim>\<open>_getBatch\<close>\<close>

text \<open>
  The request: the defaults, overridden by the caller's query (the spread
  \<^verbatim>\<open>...query\<close> comes last), then \<^verbatim>\<open>search_after\<close> when a truthy cursor is given.
\<close>

definition searchQuery :: "world \<Rightarrow> obj \<Rightarrow> jsval \<Rightarrow> obj" where
  "searchQuery w query searchAfter =
     (let sq = fmadd
            (fmupd ''limit'' (JNum (chunkSize w))
            (fmupd ''sort'' (JStr (sortBy w))
            (fmupd ''order'' (JStr (sortOrder w))
            (fmupd ''_separate_replies'' (JBool (separateReplies w)) fmempty))))
            query
      in if truthy searchAfter then fmupd ''search_after'' searchAfter sq else sq)"

text \<open>
  The synchronous half of \<^verbatim>\<open>_getBatch(query, searchAfter)\<close>: build the request, call
  \<^verbatim>\<open>searchFn\<close> and suspend at \<^verbatim>\<open>await\<close>.
\<close>

definition getBatch_call :: "obj \<Rightarrow> jsval \<Rightarrow> world \<Rightarrow> world" where
  "getBatch_call query searchAfter w =
     w\<lparr>sent := sent w @ [searchQuery w query searchAfter], inflight := inflight w @ [query]\<rparr>"

definition too_many_results :: jsval where
  "too_many_results = JError ''Results size exceeds maximum allowed annotations''"

text \<open>The guard \<^verbatim>\<open>this._maxResults && results.total > this._maxResults\<close>.\<close>

definition exceeds_maxResults :: "world \<Rightarrow> searchResult \<Rightarrow> bool" where
  "exceeds_maxResults w res =
     (case maxResults w of None \<Rightarrow> False | Some m \<Rightarrow> m \<noteq> 0 \<and> total res > m)"

text \<open>\<^verbatim>\<open>results.rows.concat(results.replies || [])\<close>\<close>

definition chunk_of :: "searchResult \<Rightarrow> obj list" where
  "chunk_of res = rows res @ (case replies res of None \<Rightarrow> [] | Some rs \<Rightarrow> rs)"

text \<open>\<^verbatim>\<open>chunk.length > 0 ? chunk[chunk.length - 1][this._sortBy] : null\<close>\<close>

definition nextSearchAfter :: "world \<Rightarrow> obj list \<Rightarrow> jsval" where
  "nextSearchAfter w chunk = (if length chunk > 0 then getprop (last chunk) (sortBy w) else JNull)"

text \<open>\<^verbatim>\<open>chunk.length === this._chunkSize\<close>\<close>

definition nextBatchAvailable :: "world \<Rightarrow> obj list \<Rightarrow> bool" where
  "nextBatchAvailable w chunk = (int (length chunk) = chunkSize w)"

text \<open>
  The statements of the \<^verbatim>\<open>try\<close> block, in the order of the source. The guard's branch
  (lines 110-117):
\<close>

definition abort_too_many :: "listeners \<Rightarrow> world \<Rightarrow> completion \<times> world" where
  "abort_too_many L w = and_then (emit L (Error too_many_results) w) (emit L End)"

text \<open>Lines 120-124: record and emit the result count on first encountering it.\<close>

definition record_count :: "listeners \<Rightarrow> searchResult \<Rightarrow> world \<Rightarrow> completion \<times> world" where
  "record_count L res w =
     (if resultCount w = None
      then emit L (ResultCount (total res)) (w\<lparr>resultCount := Some (total res)\<rparr>)
      else (Normal, w))"

text \<open>Lines 125-129: emit the chunk, or append it to \<^verbatim>\<open>_results\<close>.\<close>

definition deliver :: "listeners \<Rightarrow> obj list \<Rightarrow> world \<Rightarrow> completion \<times> world" where
  "deliver L chunk w =
     (if incremental w then emit L (Results chunk) w
      else (Normal, w\<lparr>results := results w @ chunk\<rparr>))"

text \<open>Lines 142-145: the \<^verbatim>\<open>else\<close> branch that ends the search.\<close>

definition finish :: "listeners \<Rightarrow> world \<Rightarrow> completion \<times> world" where
  "finish L w =
     and_then (if \<not> incremental w then emit L (Results (results w)) w else (Normal, w))
       (emit L End)"

text \<open>Lines 131-146: fetch the next batch (the call is not awaited) or end the search.\<close>

definition next_or_finish :: "listeners \<Rightarrow> obj \<Rightarrow> obj list \<Rightarrow> world \<Rightarrow> completion \<times> world" where
  "next_or_finish L query chunk w =
     (if nextBatchAvailable w chunk \<and> truthy (nextSearchAfter w chunk)
      then (Normal, getBatch_call query (nextSearchAfter w chunk) w)
      else finish L w)"

text \<open>The body of \<^verbatim>\<open>try\<close> after the promise resolved with \<open>res\<close>.\<close>

definition try_block :: "listeners \<Rightarrow> obj \<Rightarrow> searchResult \<Rightarrow> world \<Rightarrow> completion \<times> world" where
  "try_block L query res w =
     (if canceled w then (Normal, w)
      else if exceeds_maxResults w res then abort_too_many L w
      else and_then (record_count L res w)
        (\<lambda>w. and_then (deliver L (chunk_of res) w)
        (next_or_finish L query (chunk_of res))))"

text \<open>The body of \<^verbatim>\<open>catch (err)\<close>.\<close>

definition catch_block :: "listeners \<Rightarrow> jsval \<Rightarrow> world \<Rightarrow> completion \<times> world" where
  "catch_block L err w =
     (if canceled w then (Normal, w) else and_then (emit L (Error err) w) (emit L End))"

text \<open>
  The asynchronous half of \<^verbatim>\<open>_getBatch\<close>: the promise settles, \<^verbatim>\<open>await\<close> returns the
  page into the \<^verbatim>\<open>try\<close> block or throws the rejection into the \<^verbatim>\<open>catch\<close> block, which
  also catches what the \<^verbatim>\<open>try\<close> block throws.
\<close>

definition getBatch_resume :: "listeners \<Rightarrow> obj \<Rightarrow> response \<Rightarrow> world \<Rightarrow> completion \<times> world" where
  "getBatch_resume L query r w =
     (case r of
        Rejected err \<Rightarrow> catch_block L err w
      | Resolved res \<Rightarrow>
          (case try_block L query res w of
             (Normal, w') \<Rightarrow> (Normal, w')
           | (Throw x, w') \<Rightarrow> catch_block L x w'))"

subsection \<open>\<^verbatim>\<open>get\<close>\<close>

text \<open>\<^verbatim>\<open>get(query)\<close> (lines 168-172).\<close>

definition get :: "obj \<Rightarrow> world \<Rightarrow> world" where
  "get query w = getBatch_call query JUndefined (w\<lparr>results := [], resultCount := None\<rparr>)"

section \<open>Runs\<close>

text \<open>
  What happens to a client: a call of \<^verbatim>\<open>get\<close>, a call of \<^verbatim>\<open>cancel\<close>, or the promise of
  the \<open>i\<close>-th fetch in flight settling. An exception that leaves \<^verbatim>\<open>cancel\<close> (to its caller)
  or \<^verbatim>\<open>_getBatch\<close> (rejecting the promise nobody awaits) is logged in \<open>escaped\<close>.
\<close>

datatype action = Get obj | Cancel | Settle nat response

definition uncaught :: "completion \<times> world \<Rightarrow> world" where
  "uncaught r = (case r of (Normal, w) \<Rightarrow> w | (Throw x, w) \<Rightarrow> w\<lparr>escaped := escaped w @ [x]\<rparr>)"

fun step :: "listeners \<Rightarrow> world \<Rightarrow> action \<Rightarrow> world" where
  "step L w (Get query) = get query w"
| "step L w Cancel = uncaught (cancel L w)"
| "step L w (Settle i r) =
     (if i < length (inflight w)
      then uncaught (getBatch_resume L (inflight w ! i) r
             (w\<lparr>inflight := take i (inflight w) @ drop (Suc i) (inflight w)\<rparr>))
      else w)"

fun exec :: "listeners \<Rightarrow> world \<Rightarrow> action list \<Rightarrow> world" where
  "exec L w [] = w"
| "exec L w (a # as) = exec L (step L w a) as"

text \<open>
  A session without \<^verbatim>\<open>cancel\<close>: \<^verbatim>\<open>get(query)\<close>, then the fetches of the session settle one
  after the other with the responses \<open>rs\<close>.
\<close>

definition session :: "listeners \<Rightarrow> world \<Rightarrow> obj \<Rightarrow> response list \<Rightarrow> world" where
  "session L w query rs = exec L w (Get query # map (Settle 0) rs)"

text \<open>The events emitted between two states of a run.\<close>

definition events_since :: "world \<Rightarrow> world \<Rightarrow> event list" where
  "events_since w w' = drop (length (emitted w)) (emitted w')"

section \<open>Vocabulary of the statements\<close>

text \<open>
  A client is idle when no fetch is in flight and it has not been canceled. The handlers
  of \<^verbatim>\<open>error\<close> and \<^verbatim>\<open>end\<close> are calm when they return normally. The handlers are non-canceling
  when none of them calls \<^verbatim>\<open>cancel()\<close>.
\<close>

definition idle :: "world \<Rightarrow> bool" where
  "idle w = (inflight w = [] \<and> \<not> canceled w)"

definition calm :: "listeners \<Rightarrow> bool" where
  "calm L = ((\<forall>x. throws L (Error x) = None) \<and> throws L End = None)"

definition noncanceling :: "listeners \<Rightarrow> bool" where
  "noncanceling L = (\<forall>e. \<not> cancels L e)"

text \<open>The continuation test of line 139, on the chunk of a page.\<close>

definition continues :: "world \<Rightarrow> searchResult \<Rightarrow> bool" where
  "continues w p =
     (nextBatchAvailable w (chunk_of p) \<and> truthy (nextSearchAfter w (chunk_of p)))"

text \<open>
  The handlers called while a page is processed return normally, without calling
  \<^verbatim>\<open>cancel()\<close>: the handler of \<^verbatim>\<open>resultCount\<close> (called when no count is recorded yet) and the
  handler of \<^verbatim>\<open>results\<close> (called with the chunk in incremental mode).
\<close>

definition count_ok :: "listeners \<Rightarrow> world \<Rightarrow> searchResult \<Rightarrow> bool" where
  "count_ok L w p =
     (if resultCount w = None
      then throws L (ResultCount (total p)) = None \<and> \<not> cancels L (ResultCount (total p))
      else True)"

definition deliver_ok :: "listeners \<Rightarrow> world \<Rightarrow> searchResult \<Rightarrow> bool" where
  "deliver_ok L w p =
     (if incremental w
      then throws L (Results (chunk_of p)) = None \<and> \<not> cancels L (Results (chunk_of p))
      else True)"

text \<open>The \<^verbatim>\<open>resultCount\<close> event of a page: emitted when no count is recorded yet.\<close>

definition rc_events :: "world \<Rightarrow> searchResult \<Rightarrow> event list" where
  "rc_events w p = (if resultCount w = None then [ResultCount (total p)] else [])"

text \<open>The client after lines 119-129 ran for a page without an exception.\<close>

definition processed :: "searchResult \<Rightarrow> world \<Rightarrow> world" where
  "processed p w =
     w\<lparr>resultCount := Some (case resultCount w of None \<Rightarrow> total p | Some n \<Rightarrow> n),
       results := (if incremental w then results w else results w @ chunk_of p),
       emitted := emitted w @ rc_events w p @
         (if incremental w then [Results (chunk_of p)] else [])\<rparr>"

text \<open>The payloads of the \<^verbatim>\<open>results\<close> events of a trace, in order.\<close>

fun payloads :: "event list \<Rightarrow> obj list list" where
  "payloads [] = []"
| "payloads (Results c # t) = c # payloads t"
| "payloads (e # t) = payloads t"

subsection \<open>The order of a session's events\<close>







text \<open>The payloads of the \<^verbatim>\<open>resultCount\<close> events of a trace, in order.\<close>

fun counts :: "event list \<Rightarrow> int list" where
  "counts [] = []"
| "counts (ResultCount n # t) = n # counts t"
| "counts (e # t) = counts t"


text \<open>Between two states, no request was sent and the paging options are the same.\<close>

definition frame :: "world \<Rightarrow> world \<Rightarrow> bool" where
  "frame w w' =
     (inflight w' = inflight w \<and> sent w' = sent w \<and> chunkSize w' = chunkSize w \<and>
      sortBy w' = sortBy w)"

text \<open>Between two states, a count stays recorded and no \<^verbatim>\<open>resultCount\<close> is emitted.\<close>

definition count_free :: "world \<Rightarrow> world \<Rightarrow> bool" where
  "count_free w w' =
     (resultCount w' \<noteq> None \<and> emitted w' = emitted w @ events_since w w' \<and>
      counts (events_since w w') = [])"

section \<open>Example data\<close>

text \<open>
  The example of the specification: page size 2 and three annotations whose sort field
  \<^verbatim>\<open>created\<close> is 1, 2, 3, served as a full page and a short page.
\<close>

definition ann :: "int \<Rightarrow> obj" where
  "ann n = fmupd ''created'' (JNum n) fmempty"

definition page1 :: searchResult where
  "page1 = \<lparr>total = 3, rows = [ann 1, ann 2], replies = None\<rparr>"

definition page2 :: searchResult where
  "page2 = \<lparr>total = 3, rows = [ann 3], replies = None\<rparr>"

definition client2 :: world where
  "client2 = constructor (no_options\<lparr>opt_chunkSize := Some 2\<rparr>)"

definition no_query :: obj where
  "no_query = fmempty"


text \<open>A caller's query that carries a cursor of its own, and one that carries a limit.\<close>

definition cursor_query :: obj where
  "cursor_query = fmupd ''search_after'' (JStr ''2020'') fmempty"



text \<open>A client whose \<^verbatim>\<open>maxResults\<close> option is 0.\<close>

definition zero_max :: world where
  "zero_max = constructor (no_options\<lparr>opt_chunkSize := Some 2, opt_maxResults := Some 0\<rparr>)"


text \<open>Handlers of which the one for \<^verbatim>\<open>end\<close> throws.\<close>

definition end_thrower :: listeners where
  "end_thrower =
     \<lparr>throws = (\<lambda>e. case e of End \<Rightarrow> Some (JError ''handler failed'') | _ \<Rightarrow> None),
      cancels = (\<lambda>e. False)\<rparr>"

text \<open>Handlers of which the one for \<^verbatim>\<open>results\<close> calls \<^verbatim>\<open>cancel()\<close> and returns.\<close>

definition results_canceler :: listeners where
  "results_canceler =
     \<lparr>throws = (\<lambda>e. None),
      cancels = (\<lambda>e. case e of Results c \<Rightarrow> True | _ \<Rightarrow> False)\<rparr>"

section \<open>Basic facts\<close>

lemma and_then_Normal: "and_then (Normal, w) k = k w"
  by (simp add: and_then_def)

lemma and_then_Throw: "and_then (Throw x, w) k = (Throw x, w)"
  by (simp add: and_then_def)

lemma emit_End: "emit L End w = emit_end L w"
  by (simp add: emit_def)

lemma emit_None:
  "throws L e = None \<Longrightarrow> \<not> cancels L e \<Longrightarrow>
   emit L e w = (Normal, w\<lparr>emitted := emitted w @ [e]\<rparr>)"
  by (cases "e = End") (simp_all add: emit_def emit_end_def outcome_def)

lemma emit_Some:
  "throws L e = Some x \<Longrightarrow> \<not> cancels L e \<Longrightarrow>
   emit L e w = (Throw x, w\<lparr>emitted := emitted w @ [e]\<rparr>)"
  by (cases "e = End") (simp_all add: emit_def emit_end_def outcome_def)

lemma noncancelingD: "noncanceling L \<Longrightarrow> cancels L e = False"
  by (simp add: noncanceling_def)

lemmas exec_simps = and_then_Normal and_then_Throw emit_None emit_Some noncancelingD

lemma calmD: "calm L \<Longrightarrow> throws L (Error x) = None" "calm L \<Longrightarrow> throws L End = None"
  by (simp_all add: calm_def)

lemma catch_calm:
  "calm L \<Longrightarrow> noncanceling L \<Longrightarrow> \<not> canceled w \<Longrightarrow>
   catch_block L x w = (Normal, w\<lparr>emitted := emitted w @ [Error x, End]\<rparr>)"
  by (simp add: catch_block_def exec_simps calmD)

lemma resume_rejected:
  "calm L \<Longrightarrow> noncanceling L \<Longrightarrow> \<not> canceled w \<Longrightarrow>
   getBatch_resume L q (Rejected e) w = (Normal, w\<lparr>emitted := emitted w @ [Error e, End]\<rparr>)"
  by (simp add: getBatch_resume_def catch_calm)

lemma resume_too_many:
  "calm L \<Longrightarrow> noncanceling L \<Longrightarrow> \<not> canceled w \<Longrightarrow> exceeds_maxResults w p \<Longrightarrow>
   getBatch_resume L q (Resolved p) w =
     (Normal, w\<lparr>emitted := emitted w @ [Error too_many_results, End]\<rparr>)"
  by (simp add: getBatch_resume_def try_block_def abort_too_many_def exec_simps calmD)


lemma record_count_ok:
  "count_ok L w p \<Longrightarrow>
   record_count L p w =
     (Normal, w\<lparr>resultCount := Some (case resultCount w of None \<Rightarrow> total p | Some n \<Rightarrow> n),
        emitted := emitted w @ rc_events w p\<rparr>)"
  by (cases "resultCount w") (simp_all add: record_count_def rc_events_def count_ok_def exec_simps)


lemma try_processed:
  "\<not> canceled w \<Longrightarrow> \<not> exceeds_maxResults w p \<Longrightarrow> count_ok L w p \<Longrightarrow> deliver_ok L w p \<Longrightarrow>
   try_block L q p w = next_or_finish L q (chunk_of p) (processed p w)"
  by (cases w)
    (simp add: try_block_def record_count_ok deliver_def deliver_ok_def exec_simps processed_def)

lemma processed_fields:
  "chunkSize (processed p w) = chunkSize w"
  "incremental (processed p w) = incremental w"
  "maxResults (processed p w) = maxResults w"
  "sortBy (processed p w) = sortBy w"
  "sortOrder (processed p w) = sortOrder w"
  "separateReplies (processed p w) = separateReplies w"
  "canceled (processed p w) = canceled w"
  "inflight (processed p w) = inflight w"
  "sent (processed p w) = sent w"
  "escaped (processed p w) = escaped w"
  "results (processed p w) = (if incremental w then results w else results w @ chunk_of p)"
  "resultCount (processed p w) = Some (case resultCount w of None \<Rightarrow> total p | Some n \<Rightarrow> n)"
  "emitted (processed p w) = emitted w @ rc_events w p @
     (if incremental w then [Results (chunk_of p)] else [])"
  by (simp_all add: processed_def)

lemma processed_next:
  "nextBatchAvailable (processed p w) c = nextBatchAvailable w c"
  "nextSearchAfter (processed p w) c = nextSearchAfter w c"
  by (simp_all add: nextBatchAvailable_def nextSearchAfter_def processed_fields)

lemma next_or_finish_processed:
  "next_or_finish L q (chunk_of p) (processed p w) =
     (if continues w p
      then (Normal, getBatch_call q (nextSearchAfter w (chunk_of p)) (processed p w))
      else finish L (processed p w))"
  by (simp add: next_or_finish_def continues_def processed_next)

lemma resume_continue:
  "\<not> canceled w \<Longrightarrow> \<not> exceeds_maxResults w p \<Longrightarrow> count_ok L w p \<Longrightarrow> deliver_ok L w p \<Longrightarrow>
   continues w p \<Longrightarrow>
   getBatch_resume L q (Resolved p) w =
     (Normal, getBatch_call q (nextSearchAfter w (chunk_of p)) (processed p w))"
  by (simp add: getBatch_resume_def try_processed next_or_finish_processed)


lemma resume_done:
  "calm L \<Longrightarrow> noncanceling L \<Longrightarrow> \<not> canceled w \<Longrightarrow> \<not> exceeds_maxResults w p \<Longrightarrow> count_ok L w p \<Longrightarrow>
   deliver_ok L w p \<Longrightarrow> \<not> continues w p \<Longrightarrow>
   (\<not> incremental w \<longrightarrow> throws L (Results (results w @ chunk_of p)) = None) \<Longrightarrow>
   getBatch_resume L q (Resolved p) w =
     (Normal, (processed p w)\<lparr>emitted := emitted (processed p w) @
        (if incremental w then [] else [Results (results w @ chunk_of p)]) @ [End]\<rparr>)"
  by (simp add: getBatch_resume_def try_processed next_or_finish_processed
      finish_def processed_fields exec_simps calmD)

section \<open>A fetch settles\<close>

lemma inflight_frame:
  "exceeds_maxResults (w\<lparr>inflight := x\<rparr>) p = exceeds_maxResults w p"
  "continues (w\<lparr>inflight := x\<rparr>) p = continues w p"
  "count_ok L (w\<lparr>inflight := x\<rparr>) p = count_ok L w p"
  "deliver_ok L (w\<lparr>inflight := x\<rparr>) p = deliver_ok L w p"
  "rc_events (w\<lparr>inflight := x\<rparr>) p = rc_events w p"
  "nextSearchAfter (w\<lparr>inflight := x\<rparr>) c = nextSearchAfter w c"
  "processed p (w\<lparr>inflight := x\<rparr>) = (processed p w)\<lparr>inflight := x\<rparr>"
  by (simp_all add: exceeds_maxResults_def continues_def count_ok_def deliver_ok_def
      rc_events_def nextSearchAfter_def nextBatchAvailable_def processed_def)

lemma settle_running:
  "inflight w = [q] \<Longrightarrow>
   step L w (Settle 0 r) = uncaught (getBatch_resume L q r (w\<lparr>inflight := []\<rparr>))"
  by simp

lemma settle_idle: "inflight w = [] \<Longrightarrow> step L w (Settle i r) = w"
  by simp

lemma settles_idle: "inflight w = [] \<Longrightarrow> exec L w (map (Settle 0) rs) = w"
  by (induction rs) (simp_all del: step.simps add: settle_idle)

lemma uncaught_Normal: "uncaught (Normal, w) = w"
  by (simp add: uncaught_def)


lemmas run_defs = session_def get_def getBatch_call_def getBatch_resume_def try_block_def
  catch_block_def abort_too_many_def record_count_def deliver_def finish_def next_or_finish_def
  and_then_def emit_def emit_end_def outcome_def uncaught_def cancel_def
  exceeds_maxResults_def chunk_of_def
  nextBatchAvailable_def nextSearchAfter_def getprop_def quiet_def events_since_def

lemmas example_defs = client2_def constructor_def no_options_def page1_def page2_def ann_def
  no_query_def

section \<open>Cancellation\<close>

lemma settle_canceled:
  "canceled w \<Longrightarrow> step L w (Settle i r) =
     (if i < length (inflight w) then w\<lparr>inflight := take i (inflight w) @ drop (Suc i) (inflight w)\<rparr> else w)"
  by (cases r) (simp_all add: getBatch_resume_def try_block_def catch_block_def uncaught_def)

lemma get_fields:
  "canceled (get q w) = canceled w" "emitted (get q w) = emitted w" "escaped (get q w) = escaped w"
  "results (get q w) = []" "resultCount (get q w) = None"
  "inflight (get q w) = inflight w @ [q]"
  "sent (get q w) = sent w @ [searchQuery w q JUndefined]"
  by (simp_all add: get_def getBatch_call_def searchQuery_def Let_def)

lemma cancel_fields:
  "canceled (step L w Cancel)" "emitted (step L w Cancel) = emitted w @ [End]"
  "sent (step L w Cancel) = sent w" "inflight (step L w Cancel) = inflight w"
  by (simp_all add: cancel_def emit_end_def outcome_def uncaught_def split: option.splits)

lemma canceled_silent:
  "canceled w \<Longrightarrow> Cancel \<notin> set acts \<Longrightarrow>
     canceled (exec L w acts) \<and> emitted (exec L w acts) = emitted w"
proof (induction acts arbitrary: w)
  case Nil
  then show ?case by simp
next
  case (Cons a acts)
  show ?case
  proof (cases a)
    case (Get q)
    with Cons show ?thesis by (simp add: get_fields)
  next
    case Cancel
    with Cons show ?thesis by simp
  next
    case (Settle i r)
    with Cons show ?thesis by (simp add: settle_canceled del: step.simps)
  qed
qed


lemma settles_canceled:
  "canceled w \<Longrightarrow>
     sent (exec L w (map (\<lambda>(i, r). Settle i r) irs)) = sent w"
proof (induction irs arbitrary: w)
  case Nil
  then show ?case by simp
next
  case (Cons ir irs)
  obtain i r where ir: "ir = (i, r)" by (cases ir)
  from Cons show ?case by (simp add: ir settle_canceled del: step.simps)
qed

lemma canceled_mono: "canceled w \<Longrightarrow> canceled (exec L w acts)"
proof (induction acts arbitrary: w)
  case Nil
  then show ?case by simp
next
  case (Cons a acts)
  show ?case
  proof (cases a)
    case (Get q)
    with Cons show ?thesis by (simp add: get_fields)
  next
    case Cancel
    with Cons show ?thesis by (simp add: cancel_fields del: step.simps)
  next
    case (Settle i r)
    with Cons show ?thesis by (simp add: settle_canceled del: step.simps)
  qed
qed

text \<open>As long as \<^verbatim>\<open>cancel\<close> is not called, by the caller or by a handler, the flag stays.\<close>

lemma flag_and_then:
  assumes "canceled (snd r) = c" "\<And>w1. canceled w1 = c \<Longrightarrow> canceled (snd (k w1)) = c"
  shows "canceled (snd (and_then r k)) = c"
proof (cases r)
  case (Pair d w1)
  with assms show ?thesis
    by (cases d) (simp_all add: and_then_def)
qed

lemma flag_emit:
  "noncanceling L \<Longrightarrow> canceled w1 = c \<Longrightarrow> canceled (snd (emit L e w1)) = c"
  by (simp add: emit_def emit_end_def noncancelingD)

lemma flag_abort:
  "noncanceling L \<Longrightarrow> canceled w1 = c \<Longrightarrow> canceled (snd (abort_too_many L w1)) = c"
  unfolding abort_too_many_def by (intro flag_and_then flag_emit)

lemma flag_catch:
  assumes "noncanceling L" "canceled w1 = c"
  shows "canceled (snd (catch_block L x w1)) = c"
proof (cases "canceled w1")
  case True
  with assms show ?thesis by (simp add: catch_block_def)
next
  case False
  have "canceled (snd (and_then (emit L (Error x) w1) (emit L End))) = c"
    by (intro flag_and_then flag_emit assms)
  with False show ?thesis by (simp add: catch_block_def)
qed

lemma flag_record_count:
  "noncanceling L \<Longrightarrow> canceled w1 = c \<Longrightarrow> canceled (snd (record_count L p w1)) = c"
  unfolding record_count_def by (auto intro!: flag_emit)

lemma flag_deliver:
  "noncanceling L \<Longrightarrow> canceled w1 = c \<Longrightarrow> canceled (snd (deliver L ch w1)) = c"
  unfolding deliver_def by (auto intro!: flag_emit)

lemma flag_finish:
  "noncanceling L \<Longrightarrow> canceled w1 = c \<Longrightarrow> canceled (snd (finish L w1)) = c"
  unfolding finish_def by (auto intro!: flag_and_then flag_emit)

lemma flag_next_or_finish:
  "noncanceling L \<Longrightarrow> canceled w1 = c \<Longrightarrow> canceled (snd (next_or_finish L q ch w1)) = c"
  unfolding next_or_finish_def by (simp add: flag_finish getBatch_call_def)

lemma flag_try:
  assumes "noncanceling L"
  shows "canceled (snd (try_block L q p w)) = canceled w"
proof -
  have "canceled (snd (and_then (record_count L p w)
      (\<lambda>w. and_then (deliver L (chunk_of p) w) (next_or_finish L q (chunk_of p))))) =
      canceled w"
    by (intro flag_and_then flag_record_count flag_deliver flag_next_or_finish assms refl)
  then show ?thesis
    by (simp add: try_block_def flag_abort [OF assms])
qed

lemma flag_resume:
  assumes "noncanceling L"
  shows "canceled (snd (getBatch_resume L q r w)) = canceled w"
proof (cases r)
  case (Rejected e)
  with assms show ?thesis by (simp add: getBatch_resume_def flag_catch)
next
  case (Resolved p)
  obtain d w1 where t: "try_block L q p w = (d, w1)" by (cases "try_block L q p w")
  from flag_try [OF assms, of q p w] t have "canceled w1 = canceled w" by simp
  with t Resolved assms show ?thesis
    by (cases d) (simp_all add: getBatch_resume_def flag_catch)
qed

lemma flag_uncaught: "canceled (uncaught r) = canceled (snd r)"
  by (cases r; cases "fst r") (simp_all add: uncaught_def)

lemma flag_settle:
  "noncanceling L \<Longrightarrow> canceled (step L w (Settle i r)) = canceled w"
  by (simp add: flag_uncaught flag_resume)

lemma flag_stays:
  "noncanceling L \<Longrightarrow> Cancel \<notin> set acts \<Longrightarrow> canceled (exec L w acts) = canceled w"
proof (induction acts arbitrary: w)
  case Nil
  then show ?case by simp
next
  case (Cons a acts)
  show ?case
  proof (cases a)
    case (Get q)
    with Cons show ?thesis by (simp add: get_fields)
  next
    case Cancel
    with Cons show ?thesis by simp
  next
    case (Settle i r)
    with Cons show ?thesis by (simp add: flag_settle del: step.simps)
  qed
qed

text \<open>
  When \<^verbatim>\<open>cancel()\<close> is called while the client waits for a fetch, that is between two
  emissions, it emits one \<^verbatim>\<open>end\<close> and nothing more is emitted afterwards, whatever the
  handlers do and whatever happens but another \<^verbatim>\<open>cancel\<close>; the fetches in flight are
  discarded when they settle, at the check of line 94 or 148, without a further request.
\<close>

lemma cancel_between_fetches:
  "Cancel \<notin> set acts \<Longrightarrow>
     emitted (step L w Cancel) = emitted w @ [End] \<and>
     canceled (step L w Cancel) \<and>
     emitted (exec L (step L w Cancel) acts) = emitted w @ [End] \<and>
     sent (exec L (step L w Cancel) (map (\<lambda>(i, r). Settle i r) irs)) = sent w"
  using canceled_silent [of "step L w Cancel" acts L]
    settles_canceled [of "step L w Cancel" L irs]
  by (simp add: cancel_fields del: step.simps)

text \<open>
  C5 fails when a handler calls \<^verbatim>\<open>cancel()\<close> while a page is processed: the flag is only
  checked right after the fetch settles (lines 94 and 148), not after the emissions of lines
  123 and 126. With a handler of \<^verbatim>\<open>results\<close> that cancels, a short page gives
  \<^verbatim>\<open>resultCount\<close>, \<^verbatim>\<open>results\<close>, the \<^verbatim>\<open>end\<close> of \<^verbatim>\<open>cancel\<close> and then the \<^verbatim>\<open>end\<close> of line 145: an
  event after \<^verbatim>\<open>cancel\<close>. After a full page the canceled client still sends the request for
  the next page (line 140), whose answer alone is discarded.
\<close>

theorem cancel_in_handler_emits_again:
  "events_since client2 (session results_canceler client2 no_query [Resolved page2]) =
     [ResultCount 3, Results [ann 3], End, End] \<and>
   canceled (session results_canceler client2 no_query [Resolved page2]) \<and>
   events_since client2 (session results_canceler client2 no_query [Resolved page1]) =
     [ResultCount 3, Results [ann 1, ann 2], End] \<and>
   canceled (session results_canceler client2 no_query [Resolved page1]) \<and>
   length (sent (session results_canceler client2 no_query [Resolved page1])) = 2 \<and>
   events_since client2
     (session results_canceler client2 no_query [Resolved page1, Resolved page2]) =
     [ResultCount 3, Results [ann 1, ann 2], End]"
  by (simp add: run_defs example_defs results_canceler_def)

text \<open>
  C6, as the code has it: \<^verbatim>\<open>get\<close> resets \<^verbatim>\<open>_results\<close> and \<^verbatim>\<open>_resultCount\<close> and leaves
  \<^verbatim>\<open>_canceled\<close> as it is. The flag is false after the constructor and nothing but \<^verbatim>\<open>cancel\<close>
  changes it: as long as \<^verbatim>\<open>cancel\<close> is not called, by the caller or by a handler, the flag
  keeps its value, whatever is fetched and emitted. Once set it stays true for the life of
  the client: a session started by \<^verbatim>\<open>get\<close> after \<^verbatim>\<open>cancel\<close> emits nothing, its fetches being
  discarded when they settle.
\<close>

theorem get_keeps_canceled:
  "results (get q w) = [] \<and> resultCount (get q w) = None \<and>
   canceled (get q w) = canceled w \<and>
   \<not> canceled (constructor opts) \<and>
   (noncanceling L \<and> Cancel \<notin> set acts \<longrightarrow> canceled (exec L w acts) = canceled w) \<and>
   canceled (exec L (step L w Cancel) acts) \<and>
   events_since (step L w Cancel) (session L (step L w Cancel) q rs) = []"
proof -
  have "Cancel \<notin> set (Get q # map (Settle 0) rs)" by auto
  then have "emitted (session L (step L w Cancel) q rs) = emitted (step L w Cancel)"
    unfolding session_def using canceled_silent [of "step L w Cancel" _ L] cancel_fields(1)
    by blast
  then show ?thesis
    by (simp add: get_fields canceled_mono cancel_fields events_since_def constructor_def
        flag_stays del: step.simps)
qed

theorem get_keeps_canceled_witness:
  "noncanceling quiet \<and> Cancel \<notin> set [Get no_query, Settle 0 (Resolved page1)] \<and>
   \<not> canceled client2 \<and>
   \<not> canceled (exec quiet client2 [Get no_query, Settle 0 (Resolved page1)]) \<and>
   resultCount (exec quiet client2 [Get no_query, Settle 0 (Resolved page1)]) = Some 3 \<and>
   resultCount (get no_query (exec quiet client2 [Get no_query, Settle 0 (Resolved page1)])) =
     None"
proof -
  have n: "noncanceling quiet" by (simp add: noncanceling_def quiet_def)
  have c: "Cancel \<notin> set [Get no_query, Settle 0 (Resolved page1)]" by simp
  have f: "\<not> canceled client2" by (simp add: example_defs)
  have r: "resultCount (exec quiet client2 [Get no_query, Settle 0 (Resolved page1)]) = Some 3"
    by (simp add: run_defs example_defs)
  note th = get_keeps_canceled [of no_query
      "exec quiet client2 [Get no_query, Settle 0 (Resolved page1)]" _ quiet
      "[Get no_query, Settle 0 (Resolved page1)]"]
  have "canceled (exec quiet client2 [Get no_query, Settle 0 (Resolved page1)]) =
      canceled client2"
    using get_keeps_canceled [of _ client2 _ quiet "[Get no_query, Settle 0 (Resolved page1)]"]
      n c by blast
  with n c f r th show ?thesis
    by (simp del: exec.simps step.simps)
qed

text \<open>
  The claim C6 as stated fails: on a client canceled once, \<^verbatim>\<open>get\<close> starts a session whose
  canceled flag is still true, and the page that settles is discarded without an event,
  where the same session on the fresh client emits the count and the page.
\<close>

theorem get_resets_canceled_counterexample:
  "canceled (exec quiet client2 [Cancel, Get no_query]) \<and>
   events_since (exec quiet client2 [Cancel])
     (exec quiet client2 [Cancel, Get no_query, Settle 0 (Resolved page1)]) = [] \<and>
   events_since client2 (exec quiet client2 [Get no_query, Settle 0 (Resolved page1)]) =
     [ResultCount 3, Results [ann 1, ann 2]]"
  by (simp add: run_defs example_defs)

section \<open>Facts about runs\<close>


lemma stop_exec:
  "step L w a = w1 \<Longrightarrow> inflight w1 = [] \<Longrightarrow> exec L (step L w a) (map (Settle 0) rs) = w1"
  by (simp add: settles_idle del: step.simps)

lemma session_get:
  "session L w q rs = exec L (get q w) (map (Settle 0) rs)"
  by (simp add: session_def)

lemma get_running:
  "idle w \<Longrightarrow> inflight (get q w) = [q]"
  "idle w \<Longrightarrow> \<not> canceled (get q w)"
  "incremental (get q w) = incremental w"
  "exceeds_maxResults (get q w) p = exceeds_maxResults w p"
  by (simp_all add: idle_def get_fields)
    (simp_all add: get_def getBatch_call_def exceeds_maxResults_def)

lemma get_config:
  "chunkSize (get q w) = chunkSize w" "maxResults (get q w) = maxResults w"
  "sortBy (get q w) = sortBy w" "incremental (get q w) = incremental w"
  by (simp_all add: get_def getBatch_call_def)

lemma get_count: "resultCount (get q w) = None"
  by (simp add: get_fields)

lemma counts_append: "counts (s @ t) = counts s @ counts t"
  by (induction s rule: counts.induct) simp_all



lemma payloads_append: "payloads (s @ t) = payloads s @ payloads t"
  by (induction s rule: payloads.induct) simp_all

lemma payloads_Results: "payloads (map Results ps) = ps"
  by (induction ps) simp_all

lemma payloads_rc: "payloads (rc_events w p) = []"
  by (simp add: rc_events_def)

section \<open>Handlers that return\<close>

lemma calm_quiet: "calm quiet"
  by (simp add: calm_def quiet_def)

lemma noncanceling_quiet: "noncanceling quiet"
  by (simp add: noncanceling_def quiet_def)

lemma quiet_None: "throws quiet e = None"
  by (simp add: quiet_def)

lemma quiet_ok: "count_ok quiet w p" "deliver_ok quiet w p"
  by (simp_all add: count_ok_def deliver_ok_def quiet_def)

text \<open>With handlers that return, a fetch settles in one of four ways.\<close>

lemma quiet_rejected:
  "inflight w = [q] \<Longrightarrow> \<not> canceled w \<Longrightarrow>
   step quiet w (Settle 0 (Rejected e)) =
     w\<lparr>inflight := [], emitted := emitted w @ [Error e, End]\<rparr>"
  by (simp add: resume_rejected calm_quiet noncanceling_quiet uncaught_Normal)

lemma quiet_too_many:
  "inflight w = [q] \<Longrightarrow> \<not> canceled w \<Longrightarrow> exceeds_maxResults w p \<Longrightarrow>
   step quiet w (Settle 0 (Resolved p)) =
     w\<lparr>inflight := [], emitted := emitted w @ [Error too_many_results, End]\<rparr>"
  by (simp add: resume_too_many calm_quiet noncanceling_quiet uncaught_Normal inflight_frame)

lemma quiet_continue:
  "inflight w = [q] \<Longrightarrow> \<not> canceled w \<Longrightarrow> \<not> exceeds_maxResults w p \<Longrightarrow> continues w p \<Longrightarrow>
   step quiet w (Settle 0 (Resolved p)) =
     (processed p w)\<lparr>inflight := [q],
        sent := sent w @ [searchQuery w q (nextSearchAfter w (chunk_of p))]\<rparr>"
  by (simp add: resume_continue quiet_ok uncaught_Normal inflight_frame processed_fields
      getBatch_call_def searchQuery_def)

lemma quiet_ended:
  "inflight w = [q] \<Longrightarrow> \<not> canceled w \<Longrightarrow> \<not> exceeds_maxResults w p \<Longrightarrow> \<not> continues w p \<Longrightarrow>
   step quiet w (Settle 0 (Resolved p)) =
     (processed p w)\<lparr>inflight := [],
        emitted := emitted (processed p w) @
          (if incremental w then [] else [Results (results w @ chunk_of p)]) @ [End]\<rparr>"
  by (simp add: resume_done calm_quiet noncanceling_quiet quiet_ok quiet_None uncaught_Normal inflight_frame
      processed_fields)

section \<open>Sessions\<close>









text \<open>
  Once a count is recorded, no further \<^verbatim>\<open>resultCount\<close> is emitted, whatever the handlers do:
  the only emission of \<^verbatim>\<open>resultCount\<close> is that of line 123, behind the test of line 120.
\<close>

lemma emit_effect:
  "emitted (snd (emit L e w)) = emitted w @ (if e \<noteq> End \<and> cancels L e then [e, End] else [e])"
  "resultCount (snd (emit L e w)) = resultCount w"
  by (simp_all add: emit_def emit_end_def cancel_def outcome_def split: option.splits)

lemma count_freeI:
  "resultCount w' \<noteq> None \<Longrightarrow> emitted w' = emitted w @ t \<Longrightarrow> counts t = [] \<Longrightarrow> count_free w w'"
  by (simp add: count_free_def events_since_def)

lemma count_freeD:
  "count_free w w' \<Longrightarrow>
   \<exists>t. emitted w' = emitted w @ t \<and> counts t = [] \<and> resultCount w' \<noteq> None"
  by (auto simp add: count_free_def)

lemma cf_trans: "count_free w w1 \<Longrightarrow> count_free w1 w2 \<Longrightarrow> count_free w w2"
proof -
  assume "count_free w w1" "count_free w1 w2"
  then obtain t1 t2 where "emitted w1 = emitted w @ t1" "counts t1 = []"
    "emitted w2 = emitted w1 @ t2" "counts t2 = []" "resultCount w2 \<noteq> None"
    by (blast dest: count_freeD)
  then show ?thesis
    by (intro count_freeI [where t = "t1 @ t2"]) (simp_all add: counts_append)
qed

lemma cf_emit:
  assumes "\<And>n. e \<noteq> ResultCount n" "count_free w w1"
  shows "count_free w (snd (emit L e w1))"
proof -
  from assms(2) have "resultCount w1 \<noteq> None"
    by (simp add: count_free_def)
  moreover from assms(1) have "counts [e] = []" "counts [e, End] = []"
    by (cases e; simp)+
  ultimately have "count_free w1 (snd (emit L e w1))"
    by (intro count_freeI [where t = "if e \<noteq> End \<and> cancels L e then [e, End] else [e]"])
      (simp_all add: emit_effect)
  with assms(2) show ?thesis by (rule cf_trans)
qed

lemma cf_emits:
  "count_free w w1 \<Longrightarrow> count_free w (snd (emit L (Error x) w1))"
  "count_free w w1 \<Longrightarrow> count_free w (snd (emit L End w1))"
  "count_free w w1 \<Longrightarrow> count_free w (snd (emit L (Results c) w1))"
  by (rule cf_emit; simp)+

lemma cf_and_then:
  assumes "count_free w (snd r)" "\<And>w1. count_free w w1 \<Longrightarrow> count_free w (snd (k w1))"
  shows "count_free w (snd (and_then r k))"
proof (cases r)
  case (Pair c w1)
  with assms show ?thesis
    by (cases c) (simp_all add: and_then_def)
qed

lemma cf_abort: "count_free w w1 \<Longrightarrow> count_free w (snd (abort_too_many L w1))"
  unfolding abort_too_many_def by (intro cf_and_then cf_emits)

lemma cf_catch: "count_free w w1 \<Longrightarrow> count_free w (snd (catch_block L x w1))"
  unfolding catch_block_def by (auto intro!: cf_and_then cf_emits)

lemma cf_record_count: "count_free w w1 \<Longrightarrow> count_free w (snd (record_count L p w1))"
  by (auto simp add: record_count_def count_free_def)

lemma cf_field:
  "count_free w w1 \<Longrightarrow> count_free w (w1\<lparr>results := x\<rparr>)"
  "count_free w w1 \<Longrightarrow> count_free w (w1\<lparr>inflight := y\<rparr>)"
  "count_free w w1 \<Longrightarrow> count_free w (w1\<lparr>escaped := z\<rparr>)"
  "count_free w w1 \<Longrightarrow> count_free w (getBatch_call q c w1)"
  by (simp_all add: count_free_def events_since_def getBatch_call_def)

lemma cf_deliver: "count_free w w1 \<Longrightarrow> count_free w (snd (deliver L c w1))"
  unfolding deliver_def by (simp add: cf_emits cf_field)

lemma cf_finish: "count_free w w1 \<Longrightarrow> count_free w (snd (finish L w1))"
  unfolding finish_def by (auto intro!: cf_and_then cf_emits)

lemma cf_next_or_finish:
  "count_free w w1 \<Longrightarrow> count_free w (snd (next_or_finish L q c w1))"
  unfolding next_or_finish_def by (simp add: cf_finish cf_field)

lemma cf_try: "count_free w w1 \<Longrightarrow> count_free w (snd (try_block L q p w1))"
  unfolding try_block_def
  by (auto intro!: cf_and_then cf_abort cf_record_count cf_deliver cf_next_or_finish)

lemma cf_caught:
  assumes "count_free w (snd t)"
  shows "count_free w (snd (case t of (Normal, w') \<Rightarrow> (Normal, w')
    | (Throw x, w') \<Rightarrow> catch_block L x w'))"
proof (cases t)
  case (Pair c w1)
  with assms show ?thesis
    by (cases c) (simp_all add: cf_catch)
qed

lemma cf_resume: "count_free w w1 \<Longrightarrow> count_free w (snd (getBatch_resume L q r w1))"
  by (cases r) (simp_all add: getBatch_resume_def cf_catch cf_caught cf_try)

lemma cf_uncaught: "count_free w (snd r) \<Longrightarrow> count_free w (uncaught r)"
  by (cases r; cases "fst r") (simp_all add: uncaught_def cf_field)

lemma cf_settle: "count_free w w1 \<Longrightarrow> count_free w (step L w1 (Settle i r))"
  by (simp add: cf_uncaught cf_resume cf_field)

lemma cf_settles: "count_free w w1 \<Longrightarrow> count_free w (exec L w1 (map (Settle 0) rs))"
proof (induction rs arbitrary: w1)
  case Nil
  then show ?case by simp
next
  case (Cons r rs)
  from Cons.IH [OF cf_settle [OF Cons.prems, of L 0 r]] show ?case
    by (simp del: step.simps)
qed

text \<open>
  The first page of a session that passes the guard: the first emission is that of
  \<^verbatim>\<open>resultCount\<close> with the page's total, and no other follows.
\<close>

lemma first_count:
  assumes "\<not> canceled w1" "\<not> exceeds_maxResults w1 p" "resultCount w1 = None"
  shows "count_free
    (w1\<lparr>resultCount := Some (total p), emitted := emitted w1 @ [ResultCount (total p)]\<rparr>)
    (snd (getBatch_resume L q (Resolved p) w1))"
proof -
  let ?a = "w1\<lparr>resultCount := Some (total p), emitted := emitted w1 @ [ResultCount (total p)]\<rparr>"
  have "count_free ?a
      (snd (emit L (ResultCount (total p)) (w1\<lparr>resultCount := Some (total p)\<rparr>)))"
    by (intro count_freeI [where t = "if cancels L (ResultCount (total p)) then [End] else []"])
      (simp_all add: emit_effect)
  with assms have "count_free ?a (snd (record_count L p w1))"
    by (simp add: record_count_def)
  then have "count_free ?a (snd (and_then (record_count L p w1)
      (\<lambda>w. and_then (deliver L (chunk_of p) w) (next_or_finish L q (chunk_of p)))))"
    by (intro cf_and_then cf_deliver cf_next_or_finish)
  with assms have "count_free ?a (snd (try_block L q p w1))"
    by (simp add: try_block_def)
  then show ?thesis
    by (simp add: getBatch_resume_def cf_caught)
qed

text \<open>
  C7: in a session whose first page is not stopped by the \<^verbatim>\<open>maxResults\<close> guard, the first
  event is \<^verbatim>\<open>resultCount\<close> with the \<^verbatim>\<open>total\<close> of the first page, and no other
  \<^verbatim>\<open>resultCount\<close> follows, whatever the later pages report and whatever the handlers do.
\<close>

theorem result_count_once:
  assumes "idle w" "\<not> exceeds_maxResults w p"
  shows "\<exists>t. events_since w (session L w q (Resolved p # rs)) = ResultCount (total p) # t \<and>
    counts t = []"
proof -
  let ?w0 = "get q w"
  let ?w1 = "?w0\<lparr>inflight := []\<rparr>"
  let ?a = "?w1\<lparr>resultCount := Some (total p), emitted := emitted ?w1 @ [ResultCount (total p)]\<rparr>"
  have run: "inflight ?w0 = [q]" "\<not> canceled ?w0"
    using assms(1) by (simp_all add: get_running)
  have "\<not> canceled ?w1" "\<not> exceeds_maxResults ?w1 p" "resultCount ?w1 = None"
    using run(2) assms(2) by (simp_all add: get_running inflight_frame get_count)
  then have "count_free ?a (snd (getBatch_resume L q (Resolved p) ?w1))"
    by (rule first_count)
  then have "count_free ?a (step L ?w0 (Settle 0 (Resolved p)))"
    using run(1) by (simp add: cf_uncaught)
  then have "count_free ?a (exec L (step L ?w0 (Settle 0 (Resolved p))) (map (Settle 0) rs))"
    by (rule cf_settles)
  then have "count_free ?a (session L w q (Resolved p # rs))"
    by (simp add: session_get del: step.simps)
  then obtain t where "emitted (session L w q (Resolved p # rs)) = emitted ?a @ t" "counts t = []"
    by (blast dest: count_freeD)
  then have "events_since w (session L w q (Resolved p # rs)) = ResultCount (total p) # t \<and>
      counts t = []"
    by (simp add: events_since_def get_fields)
  then show ?thesis by blast
qed

theorem result_count_once_witness:
  "idle client2 \<and> \<not> exceeds_maxResults client2 page1 \<and>
   (\<exists>t. events_since client2 (session quiet client2 no_query [Resolved page1, Resolved page2]) =
      ResultCount (total page1) # t \<and> counts t = [])"
proof -
  have i: "idle client2" by (simp add: idle_def example_defs)
  have x: "\<not> exceeds_maxResults client2 page1"
    by (simp add: exceeds_maxResults_def example_defs)
  from result_count_once [OF i x, of quiet no_query "[Resolved page2]"] i x show ?thesis
    by simp
qed



section \<open>Handlers that throw\<close>

lemma events_since_upd:
  "events_since w (w'\<lparr>emitted := emitted w @ t\<rparr>) = t"
  by (simp add: events_since_def)



text \<open>
  The handlers of \<^verbatim>\<open>error\<close> and \<^verbatim>\<open>end\<close> are called from the \<^verbatim>\<open>catch\<close> block itself, so
  their exceptions are not caught a second time: when the handler of \<^verbatim>\<open>end\<close> throws at the
  end of a search, the \<^verbatim>\<open>catch\<close> block emits \<^verbatim>\<open>error\<close> and a second \<^verbatim>\<open>end\<close>, whose exception
  leaves \<^verbatim>\<open>_getBatch\<close>. This is why the statements about the order of the events take these
  two handlers to return normally.
\<close>

lemma end_handler_throws:
  "events_since client2 (session end_thrower client2 no_query [Resolved page2]) =
     [ResultCount 3, Results [ann 3], End, Error (JError ''handler failed''), End] \<and>
   escaped (session end_thrower client2 no_query [Resolved page2]) = [JError ''handler failed'']"
  by (simp add: run_defs example_defs end_thrower_def)

section \<open>Paging\<close>

lemma frame_refl: "frame w w"
  by (simp add: frame_def)

lemma frame_trans: "frame w w1 \<Longrightarrow> frame w1 w2 \<Longrightarrow> frame w w2"
  by (simp add: frame_def)

lemma frame_emit: "frame w (snd (emit L e w))"
  by (simp add: frame_def emit_def emit_end_def cancel_def outcome_def split: option.splits)

lemma frame_and_then:
  assumes "frame w (snd r)" "\<And>w1. frame w w1 \<Longrightarrow> frame w (snd (k w1))"
  shows "frame w (snd (and_then r k))"
proof (cases r)
  case (Pair c w1)
  with assms show ?thesis
    by (cases c) (simp_all add: and_then_def)
qed

lemma frame_emit2: "frame w w1 \<Longrightarrow> frame w (snd (emit L e w1))"
  using frame_trans [OF _ frame_emit] by blast

lemma frame_abort: "frame w w1 \<Longrightarrow> frame w (snd (abort_too_many L w1))"
  unfolding abort_too_many_def by (intro frame_and_then frame_emit2)

lemma frame_catch: "frame w w1 \<Longrightarrow> frame w (snd (catch_block L x w1))"
  unfolding catch_block_def by (auto intro!: frame_and_then frame_emit2)

lemma frame_record_count: "frame w w1 \<Longrightarrow> frame w (snd (record_count L p w1))"
  unfolding record_count_def
  by (auto intro!: frame_emit2) (simp add: frame_def)

lemma frame_deliver: "frame w w1 \<Longrightarrow> frame w (snd (deliver L c w1))"
  unfolding deliver_def
  by (auto intro!: frame_emit2) (simp add: frame_def)

lemma frame_finish: "frame w w1 \<Longrightarrow> frame w (snd (finish L w1))"
  unfolding finish_def by (auto intro!: frame_and_then frame_emit2)

lemma frame_continues: "frame w w1 \<Longrightarrow>
    (nextBatchAvailable w1 (chunk_of p) \<and> truthy (nextSearchAfter w1 (chunk_of p))) = continues w p"
  by (simp add: frame_def continues_def nextBatchAvailable_def nextSearchAfter_def)

lemma frame_next_or_finish:
  "\<not> continues w p \<Longrightarrow> frame w w1 \<Longrightarrow> frame w (snd (next_or_finish L q (chunk_of p) w1))"
  unfolding next_or_finish_def by (simp add: frame_continues frame_finish)

lemma frame_try:
  "\<not> continues w p \<Longrightarrow> frame w (snd (try_block L q p w))"
  unfolding try_block_def
  by (auto intro!: frame_and_then frame_abort frame_record_count frame_deliver
      frame_next_or_finish frame_refl)

text \<open>
  Whatever the handlers do: a fetch that fails, or resolves with a page that fails the
  continuation test, sends no request.
\<close>

lemma frame_resume:
  "(case r of Resolved p \<Rightarrow> \<not> continues w p | Rejected e \<Rightarrow> True) \<Longrightarrow>
   frame w (snd (getBatch_resume L q r w))"
proof (cases r)
  case (Rejected e)
  then show ?thesis by (simp add: getBatch_resume_def frame_catch frame_refl)
next
  case (Resolved p)
  assume "case r of Resolved p \<Rightarrow> \<not> continues w p | Rejected e \<Rightarrow> True"
  with Resolved have nc: "\<not> continues w p" by simp
  obtain c w1 where t: "try_block L q p w = (c, w1)" by (cases "try_block L q p w")
  from frame_try [OF nc, of L q] t have "frame w w1" by simp
  with t Resolved show ?thesis
    by (cases c) (simp_all add: getBatch_resume_def frame_catch)
qed

lemma frame_uncaught: "frame w (snd r) \<Longrightarrow> frame w (uncaught r)"
  by (cases r; cases "fst r") (simp_all add: uncaught_def frame_def)

lemma settle_stops:
  assumes "inflight w = [q]" "\<not> continues w p"
  shows "inflight (step L w (Settle 0 (Resolved p))) = []"
    "sent (step L w (Settle 0 (Resolved p))) = sent w"
proof -
  have "\<not> continues (w\<lparr>inflight := []\<rparr>) p"
    using assms(2) by (simp add: inflight_frame)
  then have "frame (w\<lparr>inflight := []\<rparr>)
      (uncaught (getBatch_resume L q (Resolved p) (w\<lparr>inflight := []\<rparr>)))"
    by (intro frame_uncaught frame_resume) simp
  with assms(1) show "inflight (step L w (Settle 0 (Resolved p))) = []"
    "sent (step L w (Settle 0 (Resolved p))) = sent w"
    by (simp_all add: frame_def)
qed

lemma searchQuery_search_after:
  "fmlookup (searchQuery w q c) ''search_after'' =
     (if truthy c then Some c else fmlookup q ''search_after'')"
  by (simp add: searchQuery_def Let_def fmlookup_dom_iff split: option.splits)


lemma settle_continues:
  assumes "inflight w = [q]" "\<not> canceled w" "\<not> exceeds_maxResults w p" "count_ok L w p"
    "deliver_ok L w p" "continues w p"
  shows "inflight (step L w (Settle 0 (Resolved p))) = [q]"
    "sent (step L w (Settle 0 (Resolved p))) =
       sent w @ [searchQuery w q (nextSearchAfter w (chunk_of p))]"
  using assms
  by (simp_all add: resume_continue uncaught_Normal inflight_frame processed_fields
      getBatch_call_def searchQuery_def)

text \<open>
  C4, as the code has it. For a page processed in a session (the session is not canceled,
  the guard lets the page pass and the handlers called for it return): the next page is
  fetched if and only if the chunk has \<^verbatim>\<open>chunkSize\<close> items and the cursor is truthy, the
  cursor being the sort field of the last item of the chunk (\<^verbatim>\<open>null\<close> for an empty chunk);
  the next request then carries that cursor as \<^verbatim>\<open>search_after\<close>, and otherwise no request is
  sent. To the first request of a session the client adds no \<^verbatim>\<open>search_after\<close>: the request
  has the \<^verbatim>\<open>search_after\<close> of the caller's query, if any.
\<close>

theorem next_page_iff:
  assumes "inflight w = [q]" "\<not> canceled w" "\<not> exceeds_maxResults w p" "count_ok L w p"
    "deliver_ok L w p"
  shows "(inflight (step L w (Settle 0 (Resolved p))) \<noteq> []) =
      (int (length (chunk_of p)) = chunkSize w \<and> truthy (nextSearchAfter w (chunk_of p))) \<and>
    nextSearchAfter w (chunk_of p) =
      (if chunk_of p = [] then JNull else getprop (last (chunk_of p)) (sortBy w)) \<and>
    (if inflight (step L w (Settle 0 (Resolved p))) \<noteq> []
     then \<exists>req. sent (step L w (Settle 0 (Resolved p))) = sent w @ [req] \<and>
       fmlookup req ''search_after'' = Some (nextSearchAfter w (chunk_of p))
     else sent (step L w (Settle 0 (Resolved p))) = sent w) \<and>
    (\<exists>req. sent (get q' w') = sent w' @ [req] \<and>
       fmlookup req ''search_after'' = fmlookup q' ''search_after'')"
proof -
  have first: "\<exists>req. sent (get q' w') = sent w' @ [req] \<and>
       fmlookup req ''search_after'' = fmlookup q' ''search_after''"
    by (simp add: get_def getBatch_call_def searchQuery_search_after)
  have nsa: "nextSearchAfter w (chunk_of p) =
      (if chunk_of p = [] then JNull else getprop (last (chunk_of p)) (sortBy w))"
    by (simp add: nextSearchAfter_def)
  have cont: "continues w p =
      (int (length (chunk_of p)) = chunkSize w \<and> truthy (nextSearchAfter w (chunk_of p)))"
    by (simp add: continues_def nextBatchAvailable_def)
  show ?thesis
  proof (cases "continues w p")
    case True
    then have t: "truthy (nextSearchAfter w (chunk_of p))" by (simp add: continues_def)
    from settle_continues [OF assms True] True cont first nsa t show ?thesis
      by (simp add: searchQuery_search_after del: step.simps)
  next
    case False
    from settle_stops [OF assms(1) False, of L] False cont first nsa show ?thesis
      by (simp del: step.simps)
  qed
qed

theorem next_page_iff_witness:
  "inflight (get no_query client2) = [no_query] \<and> \<not> canceled (get no_query client2) \<and>
   \<not> exceeds_maxResults (get no_query client2) page1 \<and>
   count_ok quiet (get no_query client2) page1 \<and>
   deliver_ok quiet (get no_query client2) page1 \<and>
   inflight (step quiet (get no_query client2) (Settle 0 (Resolved page1))) \<noteq> [] \<and>
   (\<exists>req. sent (step quiet (get no_query client2) (Settle 0 (Resolved page1))) =
       sent (get no_query client2) @ [req] \<and>
       fmlookup req ''search_after'' = Some (JNum 2))"
proof -
  have i: "inflight (get no_query client2) = [no_query]"
    by (simp add: get_fields example_defs)
  have n: "\<not> canceled (get no_query client2)"
    by (simp add: get_fields example_defs)
  have x: "\<not> exceeds_maxResults (get no_query client2) page1"
    by (simp add: exceeds_maxResults_def get_config) (simp add: example_defs)
  have c: "count_ok quiet (get no_query client2) page1"
    by (simp add: count_ok_def quiet_def)
  have d: "deliver_ok quiet (get no_query client2) page1"
    by (simp add: deliver_ok_def quiet_def)
  have k: "nextSearchAfter (get no_query client2) (chunk_of page1) = JNum 2"
    by (simp add: nextSearchAfter_def chunk_of_def getprop_def get_def getBatch_call_def
        example_defs)
  have l: "int (length (chunk_of page1)) = chunkSize (get no_query client2)"
    by (simp add: chunk_of_def get_def getBatch_call_def example_defs)
  note th = next_page_iff [OF i n x c d, of no_query client2]
  from th [THEN conjunct1] k l
  have f: "inflight (step quiet (get no_query client2) (Settle 0 (Resolved page1))) \<noteq> []"
    by (simp del: step.simps)
  from th [THEN conjunct2, THEN conjunct2, THEN conjunct1] f k
  have "\<exists>req. sent (step quiet (get no_query client2) (Settle 0 (Resolved page1))) =
       sent (get no_query client2) @ [req] \<and>
       fmlookup req ''search_after'' = Some (JNum 2)"
    by (simp del: step.simps)
  with i n x c d f show ?thesis
    by blast
qed

text \<open>
  The claim C4 as stated fails for the first request: the caller's query is spread into
  the request, so a query that has a \<^verbatim>\<open>search_after\<close> of its own sends it with the first
  request of the session.
\<close>

theorem first_request_counterexample:
  "length (sent (get cursor_query client2)) = 1 \<and>
   fmlookup (last (sent (get cursor_query client2))) ''search_after'' = Some (JStr ''2020'')"
  by (simp add: get_def getBatch_call_def searchQuery_def cursor_query_def example_defs)




text \<open>
  C3 at \<^verbatim>\<open>maxResults = 0\<close>: the guard tests the truthiness of \<^verbatim>\<open>this._maxResults\<close>, and 0 is
  falsy, so a page whose total exceeds 0 is delivered instead of being refused.
\<close>

theorem max_results_zero_not_enforced:
  "maxResults zero_max = Some 0 \<and> 0 < total page2 \<and>
   events_since zero_max (session quiet zero_max no_query [Resolved page2]) =
     [ResultCount 3, Results [ann 3], End]"
  by (simp add: run_defs example_defs zero_max_def)

text \<open>For every other limit the guard stops the session before any data is delivered.\<close>

lemma guard_fires:
  assumes "calm L" "noncanceling L" "idle w" "maxResults w = Some k" "k \<noteq> 0" "k < total p"
  shows "events_since w (session L w q (Resolved p # rs)) = [Error too_many_results, End] \<and>
    inflight (session L w q (Resolved p # rs)) = [] \<and>
    sent (session L w q (Resolved p # rs)) = sent (get q w)"
proof -
  let ?w0 = "get q w"
  have run: "inflight ?w0 = [q]" "\<not> canceled ?w0"
    using assms(3) by (simp_all add: get_running)
  have ex: "exceeds_maxResults ?w0 p"
    using assms(4,5,6) by (simp add: exceeds_maxResults_def get_config)
  have "step L ?w0 (Settle 0 (Resolved p)) =
      ?w0\<lparr>inflight := [], emitted := emitted ?w0 @ [Error too_many_results, End]\<rparr>"
    using assms(1,2) run ex by (simp add: resume_too_many uncaught_Normal inflight_frame)
  then have "session L w q (Resolved p # rs) =
      ?w0\<lparr>inflight := [], emitted := emitted ?w0 @ [Error too_many_results, End]\<rparr>"
    by (simp add: session_get settles_idle del: step.simps)
  then show ?thesis
    by (simp add: events_since_def get_fields)
qed

section \<open>Incremental and batch mode\<close>

text \<open>The batch twin of an incremental client that has delivered the chunks \<open>ps\<close>.\<close>

lemma twin_tests:
  "exceeds_maxResults (w\<lparr>incremental := i, results := rs, emitted := es\<rparr>) p =
     exceeds_maxResults w p"
  "continues (w\<lparr>incremental := i, results := rs, emitted := es\<rparr>) p = continues w p"
  "rc_events (w\<lparr>incremental := i, results := rs, emitted := es\<rparr>) p = rc_events w p"
  "nextSearchAfter (w\<lparr>incremental := i, results := rs, emitted := es\<rparr>) c = nextSearchAfter w c"
  "searchQuery (w\<lparr>incremental := i, results := rs, emitted := es\<rparr>) q v = searchQuery w q v"
  by (simp_all add: exceeds_maxResults_def continues_def rc_events_def nextSearchAfter_def
      nextBatchAvailable_def searchQuery_def)

lemma twin_step:
  "incremental w \<Longrightarrow>
   (processed p (w\<lparr>incremental := False, results := rs, emitted := es\<rparr>))
      \<lparr>inflight := i, sent := se\<rparr> =
   ((processed p w)\<lparr>inflight := i, sent := se\<rparr>)
      \<lparr>incremental := False, results := rs @ chunk_of p, emitted := es @ rc_events w p\<rparr>"
  by (cases w) (simp add: processed_def rc_events_def)

lemma lockstep:
  "inflight wI = [q] \<Longrightarrow> \<not> canceled wI \<Longrightarrow> incremental wI \<Longrightarrow>
   emitted wI = b @ s @ map Results ps \<Longrightarrow> payloads s = [] \<Longrightarrow>
   (if resultCount wI = None then ps = [] else True) \<Longrightarrow>
   \<exists>tI tB.
     emitted (exec quiet wI (map (Settle 0) rs)) = b @ tI \<and>
     emitted (exec quiet (wI\<lparr>incremental := False, results := concat ps, emitted := b @ s\<rparr>)
       (map (Settle 0) rs)) = b @ tB \<and>
     (payloads tB = [] \<or> payloads tB = [concat (payloads tI)]) \<and>
     sent (exec quiet (wI\<lparr>incremental := False, results := concat ps, emitted := b @ s\<rparr>)
       (map (Settle 0) rs)) = sent (exec quiet wI (map (Settle 0) rs))"
proof (induction rs arbitrary: wI s ps)
  case Nil
  then show ?case by (simp add: payloads_append payloads_Results)
next
  case (Cons r rs)
  let ?wB = "wI\<lparr>incremental := False, results := concat ps, emitted := b @ s\<rparr>"
  have runB: "inflight ?wB = [q]" "\<not> canceled ?wB"
    using Cons.prems(1,2) by simp_all
  note runI = Cons.prems(1,2)
  show ?case
  proof (cases r)
    case (Rejected e)
    have "exec quiet wI (map (Settle 0) (r # rs)) =
        wI\<lparr>inflight := [], emitted := emitted wI @ [Error e, End]\<rparr>"
      using stop_exec [OF quiet_rejected [OF runI, of e], of rs] Rejected
      by (simp del: step.simps)
    moreover have "exec quiet ?wB (map (Settle 0) (r # rs)) =
        ?wB\<lparr>inflight := [], emitted := emitted ?wB @ [Error e, End]\<rparr>"
      using stop_exec [OF quiet_rejected [OF runB, of e], of rs] Rejected
      by (simp del: step.simps)
    ultimately show ?thesis
      using Cons.prems(4,5) by (simp add: payloads_append payloads_Results del: exec.simps)
  next
    case (Resolved p)
    show ?thesis
    proof (cases "exceeds_maxResults wI p")
      case True
      then have exB: "exceeds_maxResults ?wB p" by (simp add: twin_tests)
      have "exec quiet wI (map (Settle 0) (r # rs)) =
          wI\<lparr>inflight := [], emitted := emitted wI @ [Error too_many_results, End]\<rparr>"
        using stop_exec [OF quiet_too_many [OF runI True], of rs] Resolved
        by (simp del: step.simps)
      moreover have "exec quiet ?wB (map (Settle 0) (r # rs)) =
          ?wB\<lparr>inflight := [], emitted := emitted ?wB @ [Error too_many_results, End]\<rparr>"
        using stop_exec [OF quiet_too_many [OF runB exB], of rs] Resolved
        by (simp del: step.simps)
      ultimately show ?thesis
        using Cons.prems(4,5) by (simp add: payloads_append payloads_Results del: exec.simps)
    next
      case nex: False
      then have nexB: "\<not> exceeds_maxResults ?wB p" by (simp add: twin_tests)
      show ?thesis
      proof (cases "continues wI p")
        case False
        then have ncB: "\<not> continues ?wB p" by (simp add: twin_tests)
        have "exec quiet wI (map (Settle 0) (r # rs)) =
            (processed p wI)\<lparr>inflight := [],
              emitted := emitted (processed p wI) @
                (if incremental wI then [] else [Results (results wI @ chunk_of p)]) @ [End]\<rparr>"
          using stop_exec [OF quiet_ended [OF runI nex False], of rs] Resolved
          by (simp del: step.simps)
        moreover have "exec quiet ?wB (map (Settle 0) (r # rs)) =
            (processed p ?wB)\<lparr>inflight := [],
              emitted := emitted (processed p ?wB) @
                (if incremental ?wB then [] else [Results (results ?wB @ chunk_of p)]) @ [End]\<rparr>"
          using stop_exec [OF quiet_ended [OF runB nexB ncB], of rs] Resolved
          by (simp del: step.simps)
        ultimately show ?thesis
          using Cons.prems(3,4,5)
          by (simp add: payloads_append payloads_Results payloads_rc processed_fields twin_tests
              del: exec.simps)
      next
        case True
        then have cB: "continues ?wB p" by (simp add: twin_tests)
        let ?wI1 = "(processed p wI)\<lparr>inflight := [q],
            sent := sent wI @ [searchQuery wI q (nextSearchAfter wI (chunk_of p))]\<rparr>"
        let ?s1 = "s @ rc_events wI p"
        let ?ps1 = "ps @ [chunk_of p]"
        have stepI: "exec quiet wI (map (Settle 0) (r # rs)) = exec quiet ?wI1 (map (Settle 0) rs)"
          using quiet_continue [OF runI nex True] Resolved by (simp del: step.simps)
        have "step quiet ?wB (Settle 0 (Resolved p)) =
            (processed p ?wB)\<lparr>inflight := [q],
              sent := sent ?wB @ [searchQuery ?wB q (nextSearchAfter ?wB (chunk_of p))]\<rparr>"
          by (rule quiet_continue [OF runB nexB cB])
        also have "\<dots> =
            ?wI1\<lparr>incremental := False, results := concat ?ps1, emitted := b @ ?s1\<rparr>"
          using Cons.prems(3) by (simp add: twin_tests twin_step)
        finally have stepB: "exec quiet ?wB (map (Settle 0) (r # rs)) =
            exec quiet (?wI1\<lparr>incremental := False, results := concat ?ps1, emitted := b @ ?s1\<rparr>)
              (map (Settle 0) rs)"
          using Resolved by (simp del: step.simps)
        have p1: "inflight ?wI1 = [q]" "\<not> canceled ?wI1" "incremental ?wI1"
          using Cons.prems(2,3) by (simp_all add: processed_fields)
        have p2: "emitted ?wI1 = b @ ?s1 @ map Results ?ps1"
          using Cons.prems(3,4,6)
          by (cases "resultCount wI") (simp_all add: processed_fields rc_events_def)
        have p3: "payloads ?s1 = []"
          using Cons.prems(5) by (simp add: payloads_append payloads_rc)
        have p4: "if resultCount ?wI1 = None then ?ps1 = [] else True"
          by (simp add: processed_fields)
        from Cons.IH [OF p1 p2 p3 p4] show ?thesis
          by (simp only: stepI stepB)
      qed
    qed
  qed
qed

lemma Results_payloads: "Results P \<in> set t \<Longrightarrow> P \<in> set (payloads t)"
  by (induction t rule: payloads.induct) auto

lemma get_twin:
  "get q (w\<lparr>incremental := False\<rparr>) =
     (get q (w\<lparr>incremental := True\<rparr>))
       \<lparr>incremental := False, results := concat [], emitted := emitted w @ []\<rparr>"
  by (cases w) (simp add: get_def getBatch_call_def searchQuery_def)

text \<open>
  C2: for a client that is idle, a query and the responses of the search function, run once
  in incremental and once in batch mode, all else equal and the handlers returning
  normally: when the batch run emits a \<^verbatim>\<open>results\<close> event, it is its only one, and its payload
  is the concatenation, in order, of the payloads of the \<^verbatim>\<open>results\<close> events of the
  incremental run. Both runs send the same requests, so the same data answers both.
\<close>

theorem incremental_batch_agree:
  assumes "idle w"
    "Results P \<in> set (events_since w (session quiet (w\<lparr>incremental := False\<rparr>) q rs))"
  shows "payloads (events_since w (session quiet (w\<lparr>incremental := False\<rparr>) q rs)) = [P] \<and>
    concat (payloads (events_since w (session quiet (w\<lparr>incremental := True\<rparr>) q rs))) = P \<and>
    sent (session quiet (w\<lparr>incremental := False\<rparr>) q rs) =
      sent (session quiet (w\<lparr>incremental := True\<rparr>) q rs)"
proof -
  let ?wI = "get q (w\<lparr>incremental := True\<rparr>)"
  have run: "inflight ?wI = [q]" "\<not> canceled ?wI" "incremental ?wI"
    using assms(1) by (simp_all add: get_fields idle_def get_config)
  have em: "emitted ?wI = emitted w @ [] @ map Results []"
    by (simp add: get_fields)
  have rc: "if resultCount ?wI = None then ([] :: obj list list) = [] else True"
    by simp
  from lockstep [OF run em _ rc, of rs] obtain tI tB where
    t: "emitted (session quiet (w\<lparr>incremental := True\<rparr>) q rs) = emitted w @ tI"
      "emitted (session quiet (w\<lparr>incremental := False\<rparr>) q rs) = emitted w @ tB"
      "payloads tB = [] \<or> payloads tB = [concat (payloads tI)]"
      "sent (session quiet (w\<lparr>incremental := False\<rparr>) q rs) =
         sent (session quiet (w\<lparr>incremental := True\<rparr>) q rs)"
    unfolding session_get get_twin [symmetric] by auto
  have evI: "events_since w (session quiet (w\<lparr>incremental := True\<rparr>) q rs) = tI"
    using t(1) by (simp add: events_since_def)
  have evB: "events_since w (session quiet (w\<lparr>incremental := False\<rparr>) q rs) = tB"
    using t(2) by (simp add: events_since_def)
  from assms(2) have "P \<in> set (payloads tB)"
    unfolding evB by (rule Results_payloads)
  with t(3) have "payloads tB = [P]" "concat (payloads tI) = P"
    by auto
  with t(4) show ?thesis
    unfolding evI evB by simp
qed

theorem incremental_batch_agree_witness:
  "idle client2 \<and>
   Results [ann 1, ann 2, ann 3] \<in> set (events_since client2
     (session quiet (client2\<lparr>incremental := False\<rparr>) no_query [Resolved page1, Resolved page2])) \<and>
   payloads (events_since client2
     (session quiet (client2\<lparr>incremental := True\<rparr>) no_query [Resolved page1, Resolved page2])) =
     [[ann 1, ann 2], [ann 3]] \<and>
   concat (payloads (events_since client2
     (session quiet (client2\<lparr>incremental := True\<rparr>) no_query [Resolved page1, Resolved page2]))) =
     [ann 1, ann 2, ann 3]"
proof -
  have i: "idle client2" by (simp add: idle_def example_defs)
  have b: "events_since client2
      (session quiet (client2\<lparr>incremental := False\<rparr>) no_query [Resolved page1, Resolved page2]) =
      [ResultCount 3, Results [ann 1, ann 2, ann 3], End]"
    by (simp add: run_defs example_defs)
  have m: "Results [ann 1, ann 2, ann 3] \<in> set (events_since client2
     (session quiet (client2\<lparr>incremental := False\<rparr>) no_query [Resolved page1, Resolved page2]))"
    by (simp only: b) simp
  have e: "payloads (events_since client2
     (session quiet (client2\<lparr>incremental := True\<rparr>) no_query [Resolved page1, Resolved page2])) =
     [[ann 1, ann 2], [ann 3]]"
    by (simp add: run_defs example_defs)
  from incremental_batch_agree [OF i m] i m e show ?thesis
    by blast
qed

end
